theory Spec2Isabelle
  imports Complex_Main "HOL-Library.Word"
begin

section \<open>Data model\<close>

text \<open>
  The records of \<^verbatim>\<open>types.ts\<close> and the part of a Web Audio \<^verbatim>\<open>AudioBuffer\<close> that the
  application reads. A sample is a finite 32-bit float; every operation the program applies
  to one (clamping, adding one half, multiplying by \<open>32768\<close> or \<open>32767\<close>) is exact in
  double precision on such values, so samples are modelled as rationals.
\<close>

type_synonym byte = "8 word"

datatype VoiceName = Puck | Charon | Kore | Fenrir | Zephyr

fun voice_string :: "VoiceName \<Rightarrow> string" where
  "voice_string Puck = ''Puck''"
| "voice_string Charon = ''Charon''"
| "voice_string Kore = ''Kore''"
| "voice_string Fenrir = ''Fenrir''"
| "voice_string Zephyr = ''Zephyr''"

record AudioBuffer =
  sampleRate :: nat
  buf_length :: nat
  channelData :: "rat list list"

definition numberOfChannels :: "AudioBuffer \<Rightarrow> nat" where
  "numberOfChannels buffer = length (channelData buffer)"

definition getChannelData :: "AudioBuffer \<Rightarrow> nat \<Rightarrow> rat list" where
  "getChannelData buffer i = channelData buffer ! i"

text \<open>Every channel of a real \<^verbatim>\<open>AudioBuffer\<close> holds \<open>buf_length\<close> samples.\<close>

definition wf_buffer :: "AudioBuffer \<Rightarrow> bool" where
  "wf_buffer buffer = list_all (\<lambda>c. length c = buf_length buffer) (channelData buffer)"

record GeneratedAudio =
  item_id :: string
  item_text :: string
  voice :: VoiceName
  timestamp :: nat
  audioBuffer :: "AudioBuffer option"

section \<open>DataView writes\<close>

text \<open>
  An \<^verbatim>\<open>ArrayBuffer\<close> is a list of bytes, created zero-filled. A \<^verbatim>\<open>DataView\<close> setter
  throws \<^verbatim>\<open>RangeError\<close> when the bytes it writes do not fit; the thrown error is the
  \<open>Inl\<close> result. \<^verbatim>\<open>AudioBufferSourceNode.stop\<close> throws \<^verbatim>\<open>InvalidStateError\<close> on a
  node that was never started.
\<close>

datatype error = RangeError | InvalidStateError

definition le_bytes :: "nat \<Rightarrow> nat \<Rightarrow> byte list" where
  "le_bytes k n = map (\<lambda>i. of_nat (n div 256 ^ i)) [0..<k]"

definition view_set :: "byte list \<Rightarrow> nat \<Rightarrow> byte list \<Rightarrow> error + byte list" where
  "view_set v p bs =
     (if p + length bs \<le> length v
      then Inr (take p v @ bs @ drop (p + length bs) v)
      else Inl RangeError)"

record writer =
  view :: "byte list"
  pos :: nat

definition setUint16 :: "nat \<Rightarrow> writer \<Rightarrow> error + writer" where
  "setUint16 data w =
     (case view_set (view w) (pos w) (le_bytes 2 data) of
        Inl e \<Rightarrow> Inl e
      | Inr v \<Rightarrow> Inr \<lparr>view = v, pos = pos w + 2\<rparr>)"

definition setUint32 :: "nat \<Rightarrow> writer \<Rightarrow> error + writer" where
  "setUint32 data w =
     (case view_set (view w) (pos w) (le_bytes 4 data) of
        Inl e \<Rightarrow> Inl e
      | Inr v \<Rightarrow> Inr \<lparr>view = v, pos = pos w + 4\<rparr>)"

text \<open>\<^verbatim>\<open>view.setInt16(p, x, true)\<close>: the number is reduced modulo \<open>2^16\<close>.\<close>

definition setInt16 :: "byte list \<Rightarrow> nat \<Rightarrow> int \<Rightarrow> error + byte list" where
  "setInt16 v p x = view_set v p (le_bytes 2 (nat (x mod 65536)))"

definition and_then :: "error + 'a \<Rightarrow> ('a \<Rightarrow> error + 'b) \<Rightarrow> error + 'b" where
  "and_then r f = (case r of Inl e \<Rightarrow> Inl e | Inr x \<Rightarrow> f x)"

text \<open>Reading a file back: little-endian unsigned fields and signed 16-bit samples.\<close>

fun le_nat :: "byte list \<Rightarrow> nat" where
  "le_nat [] = 0"
| "le_nat (b # bs) = unat b + 256 * le_nat bs"

definition get_u16 :: "byte list \<Rightarrow> nat \<Rightarrow> nat" where
  "get_u16 v p = le_nat (take 2 (drop p v))"

definition get_u32 :: "byte list \<Rightarrow> nat \<Rightarrow> nat" where
  "get_u32 v p = le_nat (take 4 (drop p v))"

definition get_i16 :: "byte list \<Rightarrow> nat \<Rightarrow> int" where
  "get_i16 v p = sint (of_nat (le_nat (take 2 (drop p v))) :: 16 word)"

section \<open>WAV export (handleDownload)\<close>

text \<open>
  The sample conversion of the export loop. \<open>x|0\<close> truncates towards zero and wraps to a
  signed 32-bit integer. The test is \<^verbatim>\<open>0.5 + sample < 0\<close>: the sum is formed first and
  then compared with zero. A typed-array read outside the array gives \<^verbatim>\<open>undefined\<close>
  (\<open>None\<close>), which \<^verbatim>\<open>Math.min\<close> turns into NaN, and \<open>NaN|0\<close> is \<open>0\<close>.
\<close>

definition trunc :: "rat \<Rightarrow> int" where
  "trunc x = (if x < 0 then - \<lfloor>- x\<rfloor> else \<lfloor>x\<rfloor>)"

definition toInt32 :: "rat \<Rightarrow> int" where
  "toInt32 x = sint (word_of_int (trunc x) :: 32 word)"

definition clamp :: "rat \<Rightarrow> rat" where
  "clamp s = max (- 1) (min 1 s)"

definition scale :: "rat \<Rightarrow> int" where
  "scale sample = toInt32 (if 1 / 2 + sample < 0 then sample * 32768 else sample * 32767)"

definition channel_sample :: "rat list list \<Rightarrow> nat \<Rightarrow> nat \<Rightarrow> rat option" where
  "channel_sample channels i p =
     (if p < length (channels ! i) then Some (channels ! i ! p) else None)"

definition sample_int :: "rat option \<Rightarrow> int" where
  "sample_int x = (case x of None \<Rightarrow> 0 | Some s \<Rightarrow> scale (clamp s))"

text \<open>The inner \<^verbatim>\<open>for\<close> loop over the channels of frame \<open>p\<close>.\<close>

function write_frame ::
  "rat list list \<Rightarrow> nat \<Rightarrow> nat \<Rightarrow> nat \<Rightarrow> byte list \<times> nat \<Rightarrow> error + byte list \<times> nat" where
  "write_frame channels numOfChan p i (v, offset) =
     (if i < numOfChan
      then (case setInt16 v (44 + offset) (sample_int (channel_sample channels i p)) of
              Inl e \<Rightarrow> Inl e
            | Inr v' \<Rightarrow> write_frame channels numOfChan p (Suc i) (v', offset + 2))
      else Inr (v, offset))"
  by pat_completeness auto
termination
  by (relation "measure (\<lambda>(channels, numOfChan, p, i, s). numOfChan - i)") auto

text \<open>The outer \<^verbatim>\<open>while (pos < buffer.length)\<close> loop; \<open>p\<close> is the variable \<^verbatim>\<open>pos\<close>.\<close>

function write_frames ::
  "rat list list \<Rightarrow> nat \<Rightarrow> nat \<Rightarrow> nat \<Rightarrow> byte list \<times> nat \<Rightarrow> error + byte list \<times> nat" where
  "write_frames channels numOfChan len p (v, offset) =
     (if p < len
      then (case write_frame channels numOfChan p 0 (v, offset) of
              Inl e \<Rightarrow> Inl e
            | Inr s \<Rightarrow> write_frames channels numOfChan len (Suc p) s)
      else Inr (v, offset))"
  by pat_completeness auto
termination
  by (relation "measure (\<lambda>(channels, numOfChan, len, p, s). len - p)") auto

text \<open>
  The header, written field by field through \<^verbatim>\<open>setUint16\<close> and \<^verbatim>\<open>setUint32\<close>, which
  advance \<^verbatim>\<open>pos\<close>. The data chunk length is computed from the current \<^verbatim>\<open>pos\<close>.
\<close>

definition write_header :: "AudioBuffer \<Rightarrow> nat \<Rightarrow> nat \<Rightarrow> writer \<Rightarrow> error + writer" where
  "write_header buffer numOfChan len w0 =
     and_then (setUint32 0x46464952 w0) (\<lambda>w.
     and_then (setUint32 (len - 8) w) (\<lambda>w.
     and_then (setUint32 0x45564157 w) (\<lambda>w.
     and_then (setUint32 0x20746d66 w) (\<lambda>w.
     and_then (setUint32 16 w) (\<lambda>w.
     and_then (setUint16 1 w) (\<lambda>w.
     and_then (setUint16 numOfChan w) (\<lambda>w.
     and_then (setUint32 (sampleRate buffer) w) (\<lambda>w.
     and_then (setUint32 (sampleRate buffer * 2 * numOfChan) w) (\<lambda>w.
     and_then (setUint16 (numOfChan * 2) w) (\<lambda>w.
     and_then (setUint16 16 w) (\<lambda>w.
     and_then (setUint32 0x61746164 w) (\<lambda>w.
     setUint32 (len - pos w - 4) w))))))))))))"

text \<open>
  The bytes handed to the \<^verbatim>\<open>Blob\<close>. The loop over the frames starts from the value that
  \<^verbatim>\<open>pos\<close> has after the header, and writes from byte \<open>44\<close> on with \<open>offset\<close> starting
  at zero.
\<close>

definition wav_bytes :: "AudioBuffer \<Rightarrow> error + byte list" where
  "wav_bytes buffer =
     (let numOfChan = numberOfChannels buffer;
          len = buf_length buffer * numOfChan * 2 + 44;
          w0 = \<lparr>view = replicate len 0, pos = 0\<rparr>
      in and_then (write_header buffer numOfChan len w0) (\<lambda>w.
           let channels = map (getChannelData buffer) [0..<numberOfChannels buffer]
           in and_then
                (write_frames channels numOfChan (buf_length buffer) (pos w) (view w, 0))
                (\<lambda>(v, offset). Inr v)))"

record download =
  filename :: string
  blob :: "byte list"

definition handleDownload :: "GeneratedAudio \<Rightarrow> error + download option" where
  "handleDownload item =
     (case audioBuffer item of
        None \<Rightarrow> Inr None
      | Some buffer \<Rightarrow>
          and_then (wav_bytes buffer) (\<lambda>bs.
            Inr (Some \<lparr>filename = ''gemini-voice-'' @ voice_string (voice item) @ ''-''
                                   @ item_id item @ ''.wav'',
                       blob = bs\<rparr>)))"

text \<open>
  Closed forms of what the header writes and of what one pass of each loop writes; the
  lemmas below relate them to \<open>write_header\<close>, \<open>write_frame\<close> and \<open>write_frames\<close>.
\<close>

definition writer_at :: "byte list \<Rightarrow> byte list \<Rightarrow> writer" where
  "writer_at pre rest = \<lparr>view = pre @ rest, pos = length pre\<rparr>"

definition sample_bytes :: "rat list list \<Rightarrow> nat \<Rightarrow> nat \<Rightarrow> byte list" where
  "sample_bytes channels p i =
     le_bytes 2 (nat (sample_int (channel_sample channels i p) mod 65536))"

definition frame_bytes :: "rat list list \<Rightarrow> nat \<Rightarrow> nat \<Rightarrow> byte list" where
  "frame_bytes channels numOfChan p = concat (map (sample_bytes channels p) [0..<numOfChan])"

definition header_bytes :: "AudioBuffer \<Rightarrow> nat \<Rightarrow> nat \<Rightarrow> byte list" where
  "header_bytes buffer numOfChan len =
     le_bytes 4 0x46464952 @ le_bytes 4 (len - 8) @ le_bytes 4 0x45564157 @
     le_bytes 4 0x20746d66 @ le_bytes 4 16 @ le_bytes 2 1 @ le_bytes 2 numOfChan @
     le_bytes 4 (sampleRate buffer) @ le_bytes 4 (sampleRate buffer * 2 * numOfChan) @
     le_bytes 2 (numOfChan * 2) @ le_bytes 2 16 @ le_bytes 4 0x61746164 @
     le_bytes 4 (len - 40 - 4)"

section \<open>PCM decoding\<close>

text \<open>
  Modelled from the spec: \<^verbatim>\<open>decodeAudioData\<close> of \<^verbatim>\<open>utils/audioUtils\<close>, which
  \<^verbatim>\<open>generateSpeech\<close> calls on the provider's bytes, is not among the sources. The spec's
  decoder takes the bytes, the sample rate and the channel count; it fails with
  \<open>MalformedAudioData\<close> unless the byte length is divisible by \<open>channelCount * 2\<close>, reads
  interleaved little-endian signed 16-bit samples, divides each by \<open>32768\<close> and
  de-interleaves them in channel order.
\<close>

datatype decode_error = MalformedAudioData

definition decode :: "byte list \<Rightarrow> nat \<Rightarrow> nat \<Rightarrow> decode_error + AudioBuffer" where
  "decode bytes sr channelCount =
     (if \<not> channelCount * 2 dvd length bytes then Inl MalformedAudioData
      else let frames = length bytes div (channelCount * 2)
           in Inr \<lparr>sampleRate = sr, buf_length = frames,
                    channelData =
                      map (\<lambda>c. map (\<lambda>f. of_int (get_i16 bytes (2 * (f * channelCount + c)))
                                          / 32768)
                                   [0..<frames])
                          [0..<channelCount]\<rparr>)"

section \<open>Playback (getAudioContext, stopPlayback, playAudio)\<close>

text \<open>
  The application state that playback touches: the two React state variables, the four
  refs, and the source nodes created so far, in creation order (a node is named by its
  index). \<open>trace\<close> records the calls made on source nodes, oldest first. A node
  remembers in \<open>node_item\<close> the id of the record it was created for; the program keeps
  that id in \<^verbatim>\<open>currentAudioId\<close> only.
\<close>

datatype ctx_state = Suspended | Running | Closed

datatype graph_event = NodeStop nat | NodeDisconnect nat | NodeConnect nat | NodeStart nat

fun event_node :: "graph_event \<Rightarrow> nat" where
  "event_node (NodeStop n) = n"
| "event_node (NodeDisconnect n) = n"
| "event_node (NodeConnect n) = n"
| "event_node (NodeStart n) = n"

record source_node =
  node_buffer :: AudioBuffer
  node_item :: string
  connected :: bool
  started :: bool
  finished :: bool
  onended :: bool
  ended_fired :: bool

record app =
  currentAudioId :: "string option"
  isPlaying :: bool
  audioContextRef :: "ctx_state option"
  analyserRef :: bool
  gainNodeRef :: bool
  sourceNodeRef :: "nat option"
  nodes :: "source_node list"
  trace :: "graph_event list"

definition initial_app :: app where
  "initial_app =
     \<lparr>currentAudioId = None, isPlaying = False, audioContextRef = None, analyserRef = False,
      gainNodeRef = False, sourceNodeRef = None, nodes = [], trace = []\<rparr>"

text \<open>A source node is playing from \<^verbatim>\<open>start()\<close> until it is stopped or its buffer ends.\<close>

definition node_playing :: "source_node \<Rightarrow> bool" where
  "node_playing nd = (started nd \<and> \<not> finished nd)"

definition playing_nodes :: "app \<Rightarrow> nat list" where
  "playing_nodes st = filter (\<lambda>n. node_playing (nodes st ! n)) [0..<length (nodes st)]"

text \<open>
  A new context is created suspended together with its analyser and gain nodes;
  \<^verbatim>\<open>resume()\<close> is modelled by its eventual effect.
\<close>

definition getAudioContext :: "app \<Rightarrow> app" where
  "getAudioContext st =
     (let st1 = (case audioContextRef st of
                   None \<Rightarrow> st\<lparr>audioContextRef := Some Suspended, analyserRef := True,
                                gainNodeRef := True\<rparr>
                 | Some c \<Rightarrow> st)
      in if audioContextRef st1 = Some Suspended
         then st1\<lparr>audioContextRef := Some Running\<rparr> else st1)"

definition node_stop :: "nat \<Rightarrow> app \<Rightarrow> error + app" where
  "node_stop n st =
     (if n < length (nodes st) \<and> started (nodes st ! n)
      then Inr (st\<lparr>nodes := (nodes st)[n := (nodes st ! n)\<lparr>finished := True\<rparr>],
                   trace := trace st @ [NodeStop n]\<rparr>)
      else Inl InvalidStateError)"

definition node_disconnect :: "nat \<Rightarrow> app \<Rightarrow> app" where
  "node_disconnect n st =
     st\<lparr>nodes := (nodes st)[n := (nodes st ! n)\<lparr>connected := False\<rparr>],
        trace := trace st @ [NodeDisconnect n]\<rparr>"

definition stopPlayback :: "app \<Rightarrow> app" where
  "stopPlayback st =
     (let st1 = (case sourceNodeRef st of
                   None \<Rightarrow> st
                 | Some n \<Rightarrow>
                     (case node_stop n st of
                        Inl e \<Rightarrow> st
                      | Inr st' \<Rightarrow> node_disconnect n st')\<lparr>sourceNodeRef := None\<rparr>)
      in st1\<lparr>isPlaying := False, currentAudioId := None\<rparr>)"

text \<open>
  \<open>start_playback\<close> is the body of \<^verbatim>\<open>playAudio\<close> after the toggle test: stop what is
  playing, get the context, return if the record has no buffer, else create, connect and
  start a new source. \<open>playAudio_captured\<close> takes the values of \<^verbatim>\<open>currentAudioId\<close> and
  \<^verbatim>\<open>isPlaying\<close> that the callback closed over; \<open>playAudio\<close> is the callback of the latest
  render.
\<close>

definition start_playback :: "GeneratedAudio \<Rightarrow> app \<Rightarrow> app" where
  "start_playback item st0 =
     (let st = getAudioContext (stopPlayback st0)
      in case audioBuffer item of
           None \<Rightarrow> st
         | Some b \<Rightarrow>
             let n = length (nodes st);
                 source = \<lparr>node_buffer = b, node_item = item_id item,
                           connected = analyserRef st, started = True,
                           finished = False, onended = True, ended_fired = False\<rparr>
             in st\<lparr>nodes := nodes st @ [source],
                   trace := trace st @ (if analyserRef st then [NodeConnect n] else [])
                              @ [NodeStart n],
                   sourceNodeRef := Some n,
                   currentAudioId := Some (item_id item),
                   isPlaying := True\<rparr>)"

definition playAudio_captured ::
  "string option \<Rightarrow> bool \<Rightarrow> GeneratedAudio \<Rightarrow> app \<Rightarrow> app" where
  "playAudio_captured cid playing item st =
     (if cid = Some (item_id item) \<and> playing then stopPlayback st
      else start_playback item st)"

definition playAudio :: "GeneratedAudio \<Rightarrow> app \<Rightarrow> app" where
  "playAudio item st = playAudio_captured (currentAudioId st) (isPlaying st) item st"

text \<open>
  The \<^verbatim>\<open>ended\<close> event of node \<open>n\<close>, dispatched once: when its buffer has played to the
  end, or after \<^verbatim>\<open>stop()\<close>. The handler that \<^verbatim>\<open>playAudio\<close> registered clears the two
  state variables.
\<close>

definition source_ended :: "nat \<Rightarrow> app \<Rightarrow> app" where
  "source_ended n st =
     (if n < length (nodes st) \<and> started (nodes st ! n) \<and> \<not> ended_fired (nodes st ! n)
      then let nd = nodes st ! n;
               st1 = st\<lparr>nodes := (nodes st)[n := nd\<lparr>finished := True, ended_fired := True\<rparr>]\<rparr>
           in if onended nd then st1\<lparr>isPlaying := False, currentAudioId := None\<rparr> else st1
      else st)"

datatype action =
    Play GeneratedAudio
  | PlayCaptured "string option" bool GeneratedAudio
  | StopPlayback
  | Ended nat

fun step :: "action \<Rightarrow> app \<Rightarrow> app" where
  "step (Play item) st = playAudio item st"
| "step (PlayCaptured cid playing item) st = playAudio_captured cid playing item st"
| "step StopPlayback st = stopPlayback st"
| "step (Ended n) st = source_ended n st"

fun run :: "action list \<Rightarrow> app \<Rightarrow> app" where
  "run [] st = st"
| "run (a # as) st = run as (step a st)"

definition handle_active :: "GeneratedAudio \<Rightarrow> app \<Rightarrow> bool" where
  "handle_active item st = (currentAudioId st = Some (item_id item) \<and> isPlaying st)"

definition happens_before :: "graph_event \<Rightarrow> graph_event \<Rightarrow> graph_event list \<Rightarrow> bool" where
  "happens_before e1 e2 tr = (e1 \<in> set (takeWhile (\<lambda>e. e \<noteq> e2) tr) \<and> e2 \<in> set tr)"

text \<open>
  What holds of every state the application reaches: only the node in \<^verbatim>\<open>sourceNodeRef\<close>
  can be playing, the ref names a started node, the analyser exists once the context does,
  and the trace names existing nodes only.
\<close>

definition graph_ok :: "app \<Rightarrow> bool" where
  "graph_ok st =
     ((\<forall>n < length (nodes st). node_playing (nodes st ! n) \<longrightarrow> sourceNodeRef st = Some n) \<and>
      (case sourceNodeRef st of
         None \<Rightarrow> True
       | Some n \<Rightarrow> n < length (nodes st) \<and> started (nodes st ! n)) \<and>
      (audioContextRef st \<noteq> None \<longrightarrow> analyserRef st) \<and>
      (\<forall>e \<in> set (trace st). event_node e < length (nodes st)))"



definition flags_current :: "app \<Rightarrow> bool" where
  "flags_current st = (playing_nodes st \<noteq> [] \<longrightarrow> isPlaying st)"

section \<open>Visualizer (AudioVisualizer)\<close>

text \<open>
  The effect of \<^verbatim>\<open>AudioVisualizer\<close>. \<open>pending\<close> says that a frame requested with
  \<^verbatim>\<open>requestAnimationFrame\<close> has neither run nor been cancelled. The state of the
  analyser's context is read by \<^verbatim>\<open>draw\<close> each time it runs.
\<close>

datatype picture = Blank | Spectrum | FlatLine

record visualizer =
  pending :: bool
  canvas :: picture

definition draw :: "bool \<Rightarrow> ctx_state \<Rightarrow> visualizer \<Rightarrow> visualizer" where
  "draw playing c vz =
     (let vz1 = vz\<lparr>canvas := Spectrum\<rparr>
      in if playing then vz1\<lparr>pending := True\<rparr>
         else if c = Closed \<or> c = Suspended then vz1\<lparr>canvas := FlatLine\<rparr>
         else vz1\<lparr>pending := True\<rparr>)"

text \<open>The effect body: nothing without a canvas or an analyser, else the first \<^verbatim>\<open>draw\<close>.\<close>

definition effect_run :: "bool \<Rightarrow> bool \<Rightarrow> bool \<Rightarrow> ctx_state \<Rightarrow> visualizer \<Rightarrow> visualizer" where
  "effect_run has_canvas has_analyser playing c vz =
     (if \<not> has_canvas \<or> \<not> has_analyser then vz else draw playing c vz)"

definition effect_cleanup :: "visualizer \<Rightarrow> visualizer" where
  "effect_cleanup vz = vz\<lparr>pending := False\<rparr>"

text \<open>The browser runs the pending frame, if any; \<open>cs\<close> lists the context state at each tick.\<close>

definition tick :: "bool \<Rightarrow> ctx_state \<Rightarrow> visualizer \<Rightarrow> visualizer" where
  "tick playing c vz = (if pending vz then draw playing c (vz\<lparr>pending := False\<rparr>) else vz)"

fun ticks :: "bool \<Rightarrow> ctx_state list \<Rightarrow> visualizer \<Rightarrow> visualizer" where
  "ticks playing [] vz = vz"
| "ticks playing (c # cs) vz = ticks playing cs (tick playing c vz)"

section \<open>Example inputs\<close>

definition tone :: AudioBuffer where
  "tone = \<lparr>sampleRate = 24000, buf_length = 2, channelData = [[1 / 2, - 1 / 2]]\<rparr>"

definition silence :: AudioBuffer where
  "silence = \<lparr>sampleRate = 24000, buf_length = 2, channelData = [[0, 0]]\<rparr>"

definition record_a :: GeneratedAudio where
  "record_a = \<lparr>item_id = ''a'', item_text = ''first'', voice = Kore, timestamp = 1,
                audioBuffer = Some tone\<rparr>"

definition record_b :: GeneratedAudio where
  "record_b = \<lparr>item_id = ''b'', item_text = ''second'', voice = Puck, timestamp = 2,
                audioBuffer = Some silence\<rparr>"

definition record_null :: GeneratedAudio where
  "record_null = \<lparr>item_id = ''n'', item_text = ''failed'', voice = Puck, timestamp = 3,
                   audioBuffer = None\<rparr>"

definition blank :: visualizer where
  "blank = \<lparr>pending = False, canvas = Blank\<rparr>"

section \<open>Properties of the WAV export and of the decoder\<close>

lemma length_le_bytes [simp]: "length (le_bytes k n) = k"
  by (simp add: le_bytes_def)

lemma le_bytes_Suc: "le_bytes (Suc k) n = of_nat n # le_bytes k (n div 256)"
  by (simp add: le_bytes_def upt_conv_Cons map_Suc_upt [symmetric] div_mult2_eq del: upt_Suc)

lemma le_nat_le_bytes: "le_nat (le_bytes k n) = n mod 256 ^ k"
proof (induction k arbitrary: n)
  case 0
  show ?case by (simp add: le_bytes_def)
next
  case (Suc k)
  have "le_nat (le_bytes (Suc k) n) = n mod 256 + 256 * ((n div 256) mod 256 ^ k)"
    by (simp add: le_bytes_Suc Suc.IH unat_of_nat)
  also have "\<dots> = n mod 256 ^ Suc k"
    by (simp add: mod_mult2_eq)
  finally show ?case .
qed

lemma view_set_append:
  "length pre = p \<Longrightarrow> length old = length bs \<Longrightarrow>
   view_set (pre @ old @ post) p bs = Inr (pre @ bs @ post)"
  by (simp add: view_set_def)

lemma length_sample_bytes [simp]: "length (sample_bytes channels p i) = 2"
  by (simp add: sample_bytes_def)

lemma write_frame_closed:
  "length pre = 44 + offset \<Longrightarrow> length mid = 2 * (numOfChan - i) \<Longrightarrow>
   write_frame channels numOfChan p i (pre @ mid @ post, offset) =
     Inr (pre @ concat (map (sample_bytes channels p) [i..<numOfChan]) @ post,
          offset + 2 * (numOfChan - i))"
proof (induction "numOfChan - i" arbitrary: i pre mid offset)
  case 0
  then show ?case by simp
next
  case (Suc k)
  then have lt: "i < numOfChan" by simp
  let ?b = "sample_bytes channels p i"
  obtain old mid' where mid: "mid = old @ mid'" and old: "length old = 2"
    and mid': "length mid' = 2 * (numOfChan - Suc i)"
  proof
    show "mid = take 2 mid @ drop 2 mid" by simp
    show "length (take 2 mid) = 2" using Suc.prems lt by simp
    show "length (drop 2 mid) = 2 * (numOfChan - Suc i)" using Suc.prems lt by simp
  qed
  have w: "setInt16 (pre @ mid @ post) (44 + offset) (sample_int (channel_sample channels i p))
           = Inr ((pre @ ?b) @ mid' @ post)"
    unfolding setInt16_def sample_bytes_def [symmetric]
    using view_set_append [of pre "44 + offset" old ?b "mid' @ post"] Suc.prems old
    by (simp add: mid)
  have k: "k = numOfChan - Suc i" using Suc.hyps by simp
  have rec: "write_frame channels numOfChan p (Suc i) ((pre @ ?b) @ mid' @ post, offset + 2) =
     Inr ((pre @ ?b) @ concat (map (sample_bytes channels p) [Suc i..<numOfChan]) @ post,
          (offset + 2) + 2 * (numOfChan - Suc i))"
    by (rule Suc.hyps(1) [OF k]) (use Suc.prems mid' in simp_all)
  have "write_frame channels numOfChan p i (pre @ mid @ post, offset) =
        write_frame channels numOfChan p (Suc i) ((pre @ ?b) @ mid' @ post, offset + 2)"
    using lt w by (subst write_frame.simps) simp
  also note rec
  finally show ?case using lt by (simp add: upt_conv_Cons)
qed

lemma length_frame_bytes [simp]: "length (frame_bytes channels numOfChan p) = 2 * numOfChan"
  by (simp add: frame_bytes_def length_concat comp_def sum_list_triv)

lemma write_frames_closed:
  "length pre = 44 + offset \<Longrightarrow> length mid = 2 * numOfChan * (len - p) \<Longrightarrow>
   write_frames channels numOfChan len p (pre @ mid @ post, offset) =
     Inr (pre @ concat (map (frame_bytes channels numOfChan) [p..<len]) @ post,
          offset + 2 * numOfChan * (len - p))"
proof (induction "len - p" arbitrary: p pre mid offset)
  case 0
  then show ?case by simp
next
  case (Suc k)
  then have lt: "p < len" by simp
  let ?f = "frame_bytes channels numOfChan p"
  have split: "len - p = Suc (len - Suc p)" using lt by simp
  obtain old mid' where mid: "mid = old @ mid'" and old: "length old = 2 * (numOfChan - 0)"
    and mid': "length mid' = 2 * numOfChan * (len - Suc p)"
  proof
    show "mid = take (2 * numOfChan) mid @ drop (2 * numOfChan) mid" by simp
    show "length (take (2 * numOfChan) mid) = 2 * (numOfChan - 0)"
      using Suc.prems split by simp
    show "length (drop (2 * numOfChan) mid) = 2 * numOfChan * (len - Suc p)"
      using Suc.prems split by simp
  qed
  have w: "write_frame channels numOfChan p 0 (pre @ mid @ post, offset) =
           Inr ((pre @ ?f) @ mid' @ post, offset + 2 * numOfChan)"
    using write_frame_closed [OF Suc.prems(1) old, of channels p "mid' @ post"]
    by (simp add: mid frame_bytes_def)
  have k: "k = len - Suc p" using Suc.hyps by simp
  have rec: "write_frames channels numOfChan len (Suc p)
               ((pre @ ?f) @ mid' @ post, offset + 2 * numOfChan) =
     Inr ((pre @ ?f) @ concat (map (frame_bytes channels numOfChan) [Suc p..<len]) @ post,
          (offset + 2 * numOfChan) + 2 * numOfChan * (len - Suc p))"
    by (rule Suc.hyps(1) [OF k]) (use Suc.prems mid' in simp_all)
  have "write_frames channels numOfChan len p (pre @ mid @ post, offset) =
        write_frames channels numOfChan len (Suc p)
          ((pre @ ?f) @ mid' @ post, offset + 2 * numOfChan)"
    using lt w by (subst write_frames.simps) simp
  also note rec
  finally show ?case using lt split by (simp add: upt_conv_Cons)
qed



lemma and_then_Inr [simp]: "and_then (Inr x) f = f x"
  by (simp add: and_then_def)


lemma pos_writer_at [simp]: "pos (writer_at pre rest) = length pre"
  by (simp add: writer_at_def)

lemma setUint32_writer_at:
  "4 \<le> length rest \<Longrightarrow>
   setUint32 d (writer_at pre rest) = Inr (writer_at (pre @ le_bytes 4 d) (drop 4 rest))"
  by (simp add: setUint32_def view_set_def writer_at_def)

lemma setUint16_writer_at:
  "2 \<le> length rest \<Longrightarrow>
   setUint16 d (writer_at pre rest) = Inr (writer_at (pre @ le_bytes 2 d) (drop 2 rest))"
  by (simp add: setUint16_def view_set_def writer_at_def)

lemma write_header_closed:
  assumes "44 \<le> length v0"
  shows "write_header buffer numOfChan len \<lparr>view = v0, pos = 0\<rparr> =
         Inr \<lparr>view = header_bytes buffer numOfChan len @ drop 44 v0, pos = 44\<rparr>"
proof -
  have start: "\<lparr>view = v0, pos = 0\<rparr> = writer_at [] v0"
    by (simp add: writer_at_def)
  have "write_header buffer numOfChan len (writer_at [] v0) =
        Inr (writer_at (header_bytes buffer numOfChan len) (drop 44 v0))"
    unfolding write_header_def header_bytes_def using assms
    by (simp add: setUint32_writer_at setUint16_writer_at)
  then show ?thesis
    unfolding start by (simp add: writer_at_def header_bytes_def)
qed

lemma wav_bytes_closed:
  "wav_bytes buffer =
     Inr (header_bytes buffer (numberOfChannels buffer)
            (buf_length buffer * numberOfChannels buffer * 2 + 44) @
          concat (map (frame_bytes (channelData buffer) (numberOfChannels buffer))
                    [44..<buf_length buffer]) @
          replicate (2 * numberOfChannels buffer * min 44 (buf_length buffer)) 0)"
proof -
  let ?nc = "numberOfChannels buffer"
  let ?L = "buf_length buffer"
  let ?len = "?L * ?nc * 2 + 44"
  let ?hdr = "header_bytes buffer ?nc ?len"
  have chans: "map (getChannelData buffer) [0..<?nc] = channelData buffer"
    unfolding numberOfChannels_def getChannelData_def by (simp add: map_nth)
  have hlen: "length ?hdr = 44 + 0" by (simp add: header_bytes_def)
  have body: "drop 44 (replicate ?len (0::byte)) =
     replicate (2 * ?nc * (?L - 44)) 0 @ replicate (2 * ?nc * min 44 ?L) 0"
  proof -
    have "?L * ?nc * 2 = 2 * ?nc * (?L - 44) + 2 * ?nc * min 44 ?L"
      by (cases "44 \<le> ?L") (simp_all add: min_def algebra_simps)
    then have "replicate (?L * ?nc * 2) (0::byte) =
        replicate (2 * ?nc * (?L - 44)) 0 @ replicate (2 * ?nc * min 44 ?L) 0"
      by (simp only: replicate_add)
    moreover have "drop 44 (replicate ?len (0::byte)) = replicate (?L * ?nc * 2) 0"
      by simp
    ultimately show ?thesis by (simp only:)
  qed
  have hd: "write_header buffer ?nc ?len \<lparr>view = replicate ?len 0, pos = 0\<rparr> =
            Inr \<lparr>view = ?hdr @ drop 44 (replicate ?len 0), pos = 44\<rparr>"
    by (rule write_header_closed) simp
  have loop: "write_frames (channelData buffer) ?nc ?L 44
        (?hdr @ replicate (2 * ?nc * (?L - 44)) 0 @ replicate (2 * ?nc * min 44 ?L) 0, 0) =
      Inr (?hdr @ concat (map (frame_bytes (channelData buffer) ?nc) [44..<?L]) @
             replicate (2 * ?nc * min 44 ?L) 0, 0 + 2 * ?nc * (?L - 44))"
    by (rule write_frames_closed [OF hlen]) simp
  show ?thesis
    unfolding wav_bytes_def Let_def hd chans and_then_Inr
    by (simp only: writer.simps body loop and_then_Inr prod.case add_0)
qed

lemma trunc_bounds:
  assumes "- 32768 \<le> x" "x \<le> 32767"
  shows "- 32768 \<le> trunc x \<and> trunc x \<le> 32767"
proof (cases "x < 0")
  case True
  have "\<lfloor>- x\<rfloor> \<le> 32768" using assms by simp
  moreover have "0 \<le> \<lfloor>- x\<rfloor>" using True by simp
  moreover have "trunc x = - \<lfloor>- x\<rfloor>" using True by (simp add: trunc_def)
  ultimately show ?thesis by linarith
next
  case False
  have "\<lfloor>x\<rfloor> \<le> 32767" using assms by simp
  moreover have "0 \<le> \<lfloor>x\<rfloor>" using False by simp
  moreover have "trunc x = \<lfloor>x\<rfloor>" using False by (simp add: trunc_def)
  ultimately show ?thesis by linarith
qed

lemma toInt32_small:
  assumes "- 32768 \<le> x" "x \<le> 32767"
  shows "toInt32 x = trunc x"
proof -
  have "- (2 ^ 31) \<le> trunc x" "trunc x < 2 ^ 31"
    using trunc_bounds [OF assms] by simp_all
  then show ?thesis
    by (simp add: toInt32_def signed_of_int signed_take_bit_int_eq_self)
qed

lemma scale_clamp:
  "scale (clamp s) =
     (if clamp s < - 1 / 2 then trunc (clamp s * 32768) else trunc (clamp s * 32767))"
proof -
  have c: "- 1 \<le> clamp s" "clamp s \<le> 1" by (simp_all add: clamp_def)
  show ?thesis
  proof (cases "clamp s < - 1 / 2")
    case True
    then have "scale (clamp s) = toInt32 (clamp s * 32768)" by (simp add: scale_def)
    also have "\<dots> = trunc (clamp s * 32768)"
      by (rule toInt32_small) (use c True in simp_all)
    finally show ?thesis using True by simp
  next
    case False
    then have "scale (clamp s) = toInt32 (clamp s * 32767)" by (simp add: scale_def)
    also have "\<dots> = trunc (clamp s * 32767)"
      by (rule toInt32_small) (use c False in simp_all)
    finally show ?thesis using False by simp
  qed
qed

lemma scale_clamp_range: "- 32768 \<le> scale (clamp s) \<and> scale (clamp s) \<le> 32767"
proof -
  have c: "- 1 \<le> clamp s" "clamp s \<le> 1" by (simp_all add: clamp_def)
  show ?thesis
  proof (cases "clamp s < - 1 / 2")
    case True
    have "- 32768 \<le> trunc (clamp s * 32768) \<and> trunc (clamp s * 32768) \<le> 32767"
      by (rule trunc_bounds) (use c True in simp_all)
    then show ?thesis using True by (simp only: scale_clamp if_True)
  next
    case False
    have "- 32768 \<le> trunc (clamp s * 32767) \<and> trunc (clamp s * 32767) \<le> 32767"
      by (rule trunc_bounds) (use c False in simp_all)
    then show ?thesis using False by (simp only: scale_clamp if_False)
  qed
qed

lemma get_i16_setInt16:
  assumes "p + 2 \<le> length v" "- 32768 \<le> x" "x \<le> 32767"
  shows "\<exists>v'. setInt16 v p x = Inr v' \<and> length v' = length v \<and> get_i16 v' p = x"
proof -
  let ?bs = "le_bytes 2 (nat (x mod 65536))"
  let ?v' = "take p v @ ?bs @ drop (p + 2) v"
  have set: "setInt16 v p x = Inr ?v'"
    using assms(1) by (simp add: setInt16_def view_set_def)
  have "take 2 (drop p ?v') = ?bs" using assms(1) by simp
  then have "get_i16 ?v' p = sint (of_nat (nat (x mod 65536) mod 256 ^ 2) :: 16 word)"
    by (simp add: get_i16_def le_nat_le_bytes)
  also have "nat (x mod 65536) mod 256 ^ 2 = nat (x mod 65536)"
    by (simp add: nat_less_iff)
  also have "(of_nat (nat (x mod 65536)) :: 16 word) = word_of_int x"
    by (simp add: word_of_int_eq_iff take_bit_eq_mod)
  also have "sint (word_of_int x :: 16 word) = x"
    using assms(2,3) by (simp add: signed_of_int signed_take_bit_int_eq_self)
  finally show ?thesis using set assms(1) by simp
qed

text \<open>
  Claim C1, as the code has it. Every sample the export loop writes is clamped to
  \<open>[-1, 1]\<close>, scaled, truncated towards zero and stored as a little-endian signed 16-bit
  value that reads back unchanged. The scale is \<open>32768\<close> when the clamped sample is below
  \<open>-1/2\<close> and \<open>32767\<close> otherwise, because the test is \<^verbatim>\<open>0.5 + sample < 0\<close>.
\<close>
theorem stored_sample_scaling:
  "p + 2 \<le> length v \<Longrightarrow>
   \<exists>v'. setInt16 v p (sample_int (Some s)) = Inr v' \<and>
        get_i16 v' p =
          (if clamp s < - 1 / 2 then trunc (clamp s * 32768) else trunc (clamp s * 32767))"
  using get_i16_setInt16 [of p v "scale (clamp s)"] scale_clamp_range [of s]
  by (auto simp: sample_int_def scale_clamp)

text \<open>The sample \<open>-3/4\<close> is stored as \<open>-24576\<close>.\<close>
theorem stored_sample_scaling_witness:
  "(0::nat) + 2 \<le> length [0, 0 :: byte] \<and>
   (\<exists>v'. setInt16 [0, 0] 0 (sample_int (Some (- 3 / 4))) = Inr v' \<and> get_i16 v' 0 = - 24576)"
  using stored_sample_scaling [of 0 "[0, 0]" "- 3 / 4"]
  by (simp add: clamp_def trunc_def)

lemma le_bytes_2: "le_bytes 2 n = [of_nat n, of_nat (n div 256)]"
  by (simp add: le_bytes_def upt_conv_Cons)

lemma le_bytes_4:
  "le_bytes 4 n = [of_nat n, of_nat (n div 256), of_nat (n div 65536), of_nat (n div 16777216)]"
  by (simp add: le_bytes_def upt_conv_Cons)


text \<open>
  Claim C1 as stated fails: the negative sample \<open>-1/4\<close> is stored as \<open>-8191\<close>, its
  product with \<open>32767\<close> truncated, and not as \<open>-8192\<close>.
\<close>
theorem negative_sample_counterexample:
  "setInt16 [0, 0] 0 (sample_int (Some (- 1 / 4))) = Inr [1, 224] \<and>
   get_i16 [1, 224] 0 = - 8191 \<and>
   trunc (clamp (- 1 / 4) * 32768) = - 8192"
proof -
  have "sample_int (Some (- 1 / 4)) = - 8191" by code_simp
  then show ?thesis
    by (simp add: setInt16_def view_set_def le_bytes_2 get_i16_def clamp_def trunc_def)
qed

lemma length_header_bytes [simp]: "length (header_bytes buffer numOfChan len) = 44"
  by (simp add: header_bytes_def)

lemma header_fields:
  "get_u32 (header_bytes buffer numOfChan len @ rest) 4 = (len - 8) mod 2 ^ 32"
  "get_u32 (header_bytes buffer numOfChan len @ rest) 40 = (len - 44) mod 2 ^ 32"
  "get_u32 (header_bytes buffer numOfChan len @ rest) 28 = (sampleRate buffer * 2 * numOfChan) mod 2 ^ 32"
  "get_u32 (header_bytes buffer numOfChan len @ rest) 24 = sampleRate buffer mod 2 ^ 32"
  "get_u16 (header_bytes buffer numOfChan len @ rest) 22 = numOfChan mod 2 ^ 16"
  "get_u16 (header_bytes buffer numOfChan len @ rest) 32 = (numOfChan * 2) mod 2 ^ 16"
  "get_u16 (header_bytes buffer numOfChan len @ rest) 34 = 16"
  "get_u16 (header_bytes buffer numOfChan len @ rest) 20 = 1"
  using le_nat_le_bytes [of 4] le_nat_le_bytes [of 2]
  by (simp_all add: header_bytes_def get_u32_def get_u16_def)

lemma length_frames:
  "length (concat (map (frame_bytes channels numOfChan) [p..<len])) = 2 * numOfChan * (len - p)"
  by (simp add: length_concat comp_def sum_list_triv)

lemma length_wav_body:
  "length (concat (map (frame_bytes channels numOfChan) [44..<len]) @
           replicate (2 * numOfChan * min 44 len) (0::byte)) = len * numOfChan * 2"
  by (cases "44 \<le> len") (simp_all add: length_frames min_def algebra_simps)

text \<open>
  Claim C2. Whenever the lengths and rates fit their header fields, the export succeeds,
  the file has \<open>44 + sampleCount * channelCount * 2\<close> bytes, and the little-endian fields
  at offsets 4, 40, 28, 32 and 34 hold the file length less 8, the data length, the byte
  rate, the block align and 16. Two channels of four zero samples give a 60-byte file
  whose data chunk is 16 zero bytes and whose byte rate is four times the sample rate.
\<close>
theorem wav_container_layout:
  "(buf_length buffer * numberOfChannels buffer * 2 + 44 < 2 ^ 32 \<and>
    sampleRate buffer * numberOfChannels buffer * 2 < 2 ^ 32 \<and>
    numberOfChannels buffer * 2 < 2 ^ 16 \<longrightarrow>
    (\<exists>bs. wav_bytes buffer = Inr bs \<and>
          length bs = 44 + buf_length buffer * numberOfChannels buffer * 2 \<and>
          get_u32 bs 4 = length bs - 8 \<and>
          get_u32 bs 40 = buf_length buffer * numberOfChannels buffer * 2 \<and>
          get_u32 bs 28 = sampleRate buffer * numberOfChannels buffer * 2 \<and>
          get_u16 bs 32 = numberOfChannels buffer * 2 \<and>
          get_u16 bs 34 = 16)) \<and>
   (sr * 4 < 2 ^ 32 \<longrightarrow>
    (\<exists>bs. wav_bytes \<lparr>sampleRate = sr, buf_length = 4,
                      channelData = [[0, 0, 0, 0], [0, 0, 0, 0]]\<rparr> = Inr bs \<and>
          length bs = 60 \<and> drop 44 bs = replicate 16 0 \<and> get_u32 bs 28 = sr * 4))"
proof (intro conjI impI)
  let ?nc = "numberOfChannels buffer"
  let ?L = "buf_length buffer"
  let ?bs = "header_bytes buffer ?nc (?L * ?nc * 2 + 44) @
             concat (map (frame_bytes (channelData buffer) ?nc) [44..<?L]) @
             replicate (2 * ?nc * min 44 ?L) 0"
  assume fit: "?L * ?nc * 2 + 44 < 2 ^ 32 \<and> sampleRate buffer * ?nc * 2 < 2 ^ 32 \<and>
               ?nc * 2 < 2 ^ 16"
  have len: "length ?bs = 44 + ?L * ?nc * 2"
    using length_wav_body [of "channelData buffer" ?nc ?L] by simp
  have riff: "get_u32 ?bs 4 = length ?bs - 8"
    unfolding len header_fields using fit by simp
  have data: "get_u32 ?bs 40 = ?L * ?nc * 2"
    unfolding header_fields using fit by simp
  have rate: "get_u32 ?bs 28 = sampleRate buffer * ?nc * 2"
    unfolding header_fields using fit by (simp add: mult.commute mult.left_commute)
  have align: "get_u16 ?bs 32 = ?nc * 2" "get_u16 ?bs 34 = 16"
    unfolding header_fields using fit by simp_all
  show "\<exists>bs. wav_bytes buffer = Inr bs \<and>
          length bs = 44 + ?L * ?nc * 2 \<and>
          get_u32 bs 4 = length bs - 8 \<and>
          get_u32 bs 40 = ?L * ?nc * 2 \<and>
          get_u32 bs 28 = sampleRate buffer * ?nc * 2 \<and>
          get_u16 bs 32 = ?nc * 2 \<and>
          get_u16 bs 34 = 16"
    using wav_bytes_closed [of buffer] len riff data rate align by blast
next
  let ?b = "\<lparr>sampleRate = sr, buf_length = 4, channelData = [[0, 0, 0, 0], [0, 0, 0, 0]]\<rparr>"
  assume "sr * 4 < 2 ^ 32"
  then show "\<exists>bs. wav_bytes ?b = Inr bs \<and>
          length bs = 60 \<and> drop 44 bs = replicate 16 0 \<and> get_u32 bs 28 = sr * 4"
    by (simp add: wav_bytes_closed numberOfChannels_def header_fields mult.commute)
qed

text \<open>A mono buffer of three samples at 24 kHz, and the two-channel buffer of zeros.\<close>
theorem wav_container_layout_witness:
  "(\<exists>bs. wav_bytes \<lparr>sampleRate = 24000, buf_length = 3, channelData = [[0, 1 / 2, - 1]]\<rparr> = Inr bs \<and>
         length bs = 50 \<and> get_u32 bs 4 = 42 \<and> get_u32 bs 40 = 6 \<and>
         get_u32 bs 28 = 48000 \<and> get_u16 bs 32 = 2 \<and> get_u16 bs 34 = 16) \<and>
   (\<exists>bs. wav_bytes \<lparr>sampleRate = 24000, buf_length = 4,
                     channelData = [[0, 0, 0, 0], [0, 0, 0, 0]]\<rparr> = Inr bs \<and>
         length bs = 60 \<and> drop 44 bs = replicate 16 0 \<and> get_u32 bs 28 = 96000)"
  using wav_container_layout
    [of "\<lparr>sampleRate = 24000, buf_length = 3, channelData = [[0, 1 / 2, - 1]]\<rparr>" 24000]
  by (auto simp: numberOfChannels_def)

lemma replicate_two_zero: "replicate 2 (0::byte) = [0, 0]"
  by (simp add: numeral_2_eq_2)

lemma one_frame_mono_wav:
  "wav_bytes \<lparr>sampleRate = 24000, buf_length = 1, channelData = [[x]]\<rparr> =
     Inr [82, 73, 70, 70, 38, 0, 0, 0, 87, 65, 86, 69, 102, 109, 116, 32,
          16, 0, 0, 0, 1, 0, 1, 0, 192, 93, 0, 0, 128, 187, 0, 0,
          2, 0, 16, 0, 100, 97, 116, 97, 2, 0, 0, 0, 0, 0]"
  by (simp add: wav_bytes_closed header_bytes_def numberOfChannels_def le_bytes_2 le_bytes_4
        replicate_two_zero)

text \<open>
  Claim C6 at its own scenario. The frame loop starts at frame 44, the value \<^verbatim>\<open>pos\<close> has
  after the header, so a buffer of one frame is exported with a data chunk of two zero
  bytes: the stored sample is 0, whether the buffer holds \<open>1\<close>, \<open>-1\<close> or the decoded
  \<open>32767/32768\<close>, although the conversion of the sample \<open>1\<close> is \<open>32767\<close> and that of
  \<open>-1\<close> is \<open>-32768\<close>.
\<close>
theorem roundtrip_failing_input:
  "decode [255, 127] 24000 1 =
     Inr \<lparr>sampleRate = 24000, buf_length = 1, channelData = [[32767 / 32768]]\<rparr> \<and>
   wav_bytes \<lparr>sampleRate = 24000, buf_length = 1, channelData = [[32767 / 32768]]\<rparr> =
     Inr [82, 73, 70, 70, 38, 0, 0, 0, 87, 65, 86, 69, 102, 109, 116, 32,
          16, 0, 0, 0, 1, 0, 1, 0, 192, 93, 0, 0, 128, 187, 0, 0,
          2, 0, 16, 0, 100, 97, 116, 97, 2, 0, 0, 0, 0, 0] \<and>
   wav_bytes \<lparr>sampleRate = 24000, buf_length = 1, channelData = [[1]]\<rparr> =
     Inr [82, 73, 70, 70, 38, 0, 0, 0, 87, 65, 86, 69, 102, 109, 116, 32,
          16, 0, 0, 0, 1, 0, 1, 0, 192, 93, 0, 0, 128, 187, 0, 0,
          2, 0, 16, 0, 100, 97, 116, 97, 2, 0, 0, 0, 0, 0] \<and>
   wav_bytes \<lparr>sampleRate = 24000, buf_length = 1, channelData = [[- 1]]\<rparr> =
     Inr [82, 73, 70, 70, 38, 0, 0, 0, 87, 65, 86, 69, 102, 109, 116, 32,
          16, 0, 0, 0, 1, 0, 1, 0, 192, 93, 0, 0, 128, 187, 0, 0,
          2, 0, 16, 0, 100, 97, 116, 97, 2, 0, 0, 0, 0, 0] \<and>
   sample_int (Some 1) = 32767 \<and> sample_int (Some (- 1)) = - 32768"
proof -
  have d: "decode [255, 127] 24000 1 =
     Inr \<lparr>sampleRate = 24000, buf_length = 1, channelData = [[32767 / 32768]]\<rparr>"
    by (simp add: decode_def get_i16_def)
  have s: "sample_int (Some 1) = 32767" by code_simp
  have t: "sample_int (Some (- 1)) = - 32768" by code_simp
  show ?thesis
    by (intro conjI)
       (rule d, rule one_frame_mono_wav, rule one_frame_mono_wav, rule one_frame_mono_wav,
        rule s, rule t)
qed

text \<open>
  Claim C5, on the decoder as the spec describes it: a byte length that is not a multiple
  of \<open>channelCount * 2\<close> gives \<open>MalformedAudioData\<close> and no buffer; any other length
  gives a buffer with that many channels, all of the same length.
\<close>
theorem decode_length_check:
  "(\<not> channelCount * 2 dvd length bytes \<longrightarrow>
      decode bytes sr channelCount = Inl MalformedAudioData) \<and>
   (channelCount * 2 dvd length bytes \<longrightarrow>
      (\<exists>buffer. decode bytes sr channelCount = Inr buffer \<and>
                numberOfChannels buffer = channelCount \<and>
                buf_length buffer = length bytes div (channelCount * 2) \<and>
                wf_buffer buffer))"
  by (auto simp: decode_def Let_def numberOfChannels_def wf_buffer_def list_all_iff)

text \<open>Three bytes of mono audio are refused; four bytes of stereo audio decode.\<close>
theorem decode_length_check_witness:
  "decode [255, 127, 1] 24000 1 = Inl MalformedAudioData \<and>
   (\<exists>buffer. decode [255, 127, 0, 128] 24000 2 = Inr buffer \<and>
             numberOfChannels buffer = 2 \<and> buf_length buffer = 1 \<and> wf_buffer buffer)"
proof -
  have odd: "\<not> 1 * 2 dvd length [255, 127, 1 :: byte]" by simp
  have even: "2 * 2 dvd length [255, 127, 0, 128 :: byte]"
    unfolding dvd_def by (rule exI [of _ 1]) simp
  have a: "decode [255, 127, 1] 24000 1 = Inl MalformedAudioData"
    using conjunct1 [OF decode_length_check [of 1 "[255, 127, 1]" 24000]] odd by (rule mp)
  have b: "\<exists>buffer. decode [255, 127, 0, 128] 24000 2 = Inr buffer \<and>
             numberOfChannels buffer = 2 \<and> buf_length buffer = 2 * 2 div (2 * 2) \<and>
             wf_buffer buffer"
    using conjunct2 [OF decode_length_check [of 2 "[255, 127, 0, 128]" 24000]] even
    by simp
  show ?thesis using a b by simp
qed

section \<open>Properties of playback\<close>

lemma filter_upt_unique:
  "(\<forall>m<k. P m \<longrightarrow> m = n) \<Longrightarrow> filter P [0..<k] = (if n < k \<and> P n then [n] else [])"
proof (induction k)
  case 0
  show ?case by simp
next
  case (Suc k)
  have IH: "filter P [0..<k] = (if n < k \<and> P n then [n] else [])"
    using Suc.prems by (intro Suc.IH) simp
  show ?case
  proof (cases "P k")
    case True
    then have "k = n" using Suc.prems by simp
    then show ?thesis using True IH by simp
  next
    case False
    then have "n < Suc k \<and> P n \<longleftrightarrow> n < k \<and> P n"
      by (cases "n = k") auto
    then show ?thesis using False IH by simp
  qed
qed

lemma filter_upt_none: "(\<forall>m<k. \<not> P m) \<Longrightarrow> filter P [0..<k] = []"
  by (induction k) auto

lemma playing_nodes_ok:
  "graph_ok st \<Longrightarrow>
   playing_nodes st =
     (case sourceNodeRef st of
        None \<Rightarrow> []
      | Some n \<Rightarrow> if node_playing (nodes st ! n) then [n] else [])"
proof (cases "sourceNodeRef st")
  case None
  assume "graph_ok st"
  with None have "\<forall>m<length (nodes st). \<not> node_playing (nodes st ! m)"
    by (auto simp: graph_ok_def)
  then show ?thesis using None by (simp add: playing_nodes_def filter_upt_none)
next
  case (Some n)
  assume ok: "graph_ok st"
  with Some have "\<forall>m<length (nodes st). node_playing (nodes st ! m) \<longrightarrow> m = n"
    and "n < length (nodes st)"
    by (auto simp: graph_ok_def)
  then show ?thesis using Some
    by (simp add: playing_nodes_def filter_upt_unique [where n = n])
qed

lemma at_most_one_playing_ok: "graph_ok st \<Longrightarrow> length (playing_nodes st) \<le> 1"
  by (simp add: playing_nodes_ok split: option.splits)

lemma graph_ok_initial: "graph_ok initial_app"
  by (simp add: graph_ok_def initial_app_def)

lemma stopPlayback_ok:
  "graph_ok st \<Longrightarrow>
   stopPlayback st =
     (case sourceNodeRef st of
        None \<Rightarrow> st\<lparr>isPlaying := False, currentAudioId := None\<rparr>
      | Some n \<Rightarrow>
          st\<lparr>nodes := (nodes st)[n := (nodes st ! n)\<lparr>finished := True, connected := False\<rparr>],
             trace := trace st @ [NodeStop n, NodeDisconnect n],
             sourceNodeRef := None, isPlaying := False, currentAudioId := None\<rparr>)"
  by (auto simp: graph_ok_def stopPlayback_def node_stop_def node_disconnect_def
           split: option.splits)

lemma graph_ok_stopPlayback: "graph_ok st \<Longrightarrow> graph_ok (stopPlayback st)"
  unfolding stopPlayback_ok
  by (auto simp: graph_ok_def node_playing_def nth_list_update split: option.splits)

lemma playing_nodes_stopPlayback: "graph_ok st \<Longrightarrow> playing_nodes (stopPlayback st) = []"
  using playing_nodes_ok [OF graph_ok_stopPlayback, of st]
  by (simp add: stopPlayback_ok split: option.splits)

lemma getAudioContext_fields [simp]:
  "nodes (getAudioContext st) = nodes st"
  "trace (getAudioContext st) = trace st"
  "sourceNodeRef (getAudioContext st) = sourceNodeRef st"
  "isPlaying (getAudioContext st) = isPlaying st"
  "currentAudioId (getAudioContext st) = currentAudioId st"
  by (simp_all add: getAudioContext_def Let_def split: option.splits)

lemma analyser_getAudioContext:
  "audioContextRef st \<noteq> None \<longrightarrow> analyserRef st \<Longrightarrow> analyserRef (getAudioContext st)"
  by (auto simp: getAudioContext_def Let_def split: option.splits)

lemma context_getAudioContext: "audioContextRef (getAudioContext st) \<noteq> None"
  by (auto simp: getAudioContext_def Let_def split: option.splits)

lemma graph_ok_getAudioContext: "graph_ok st \<Longrightarrow> graph_ok (getAudioContext st)"
  using analyser_getAudioContext [of st] by (simp add: graph_ok_def split: option.splits)

lemma stopPlayback_fields:
  "sourceNodeRef (stopPlayback st) = None"
  "isPlaying (stopPlayback st) = False"
  "currentAudioId (stopPlayback st) = None"
  "length (nodes (stopPlayback st)) = length (nodes st)"
  by (simp_all add: stopPlayback_def node_stop_def node_disconnect_def Let_def
        split: option.splits sum.splits)

lemma start_playback_None:
  "audioBuffer item = None \<Longrightarrow> start_playback item st = getAudioContext (stopPlayback st)"
  by (simp add: start_playback_def)

lemma start_playback_Some:
  assumes "graph_ok st" "audioBuffer item = Some b"
  shows "start_playback item st =
     (getAudioContext (stopPlayback st))
       \<lparr>nodes := nodes (stopPlayback st) @
          [\<lparr>node_buffer = b, node_item = item_id item, connected = True, started = True,
            finished = False, onended = True, ended_fired = False\<rparr>],
        trace := trace (stopPlayback st) @
          [NodeConnect (length (nodes st)), NodeStart (length (nodes st))],
        sourceNodeRef := Some (length (nodes st)),
        currentAudioId := Some (item_id item),
        isPlaying := True\<rparr>"
proof -
  have "graph_ok (stopPlayback st)" using assms(1) by (rule graph_ok_stopPlayback)
  then have "analyserRef (getAudioContext (stopPlayback st))"
    by (intro analyser_getAudioContext) (simp add: graph_ok_def)
  then show ?thesis
    using assms(2) by (simp add: start_playback_def Let_def stopPlayback_fields)
qed

lemma graph_ok_start_playback: "graph_ok st \<Longrightarrow> graph_ok (start_playback item st)"
proof (cases "audioBuffer item")
  case None
  assume "graph_ok st"
  then show ?thesis
    unfolding start_playback_None [OF None]
    by (intro graph_ok_getAudioContext graph_ok_stopPlayback)
next
  case (Some b)
  assume ok: "graph_ok st"
  have s: "graph_ok (getAudioContext (stopPlayback st))"
    using ok by (intro graph_ok_getAudioContext graph_ok_stopPlayback)
  have none: "\<forall>m<length (nodes st). \<not> node_playing (nodes (stopPlayback st) ! m)"
    using playing_nodes_stopPlayback [OF ok]
    by (auto simp: playing_nodes_def filter_empty_conv stopPlayback_fields)
  show ?thesis
    unfolding start_playback_Some [OF ok Some]
    using s none
    by (auto simp: graph_ok_def nth_append stopPlayback_fields less_Suc_eq node_playing_def)
qed

lemma graph_ok_source_ended: "graph_ok st \<Longrightarrow> graph_ok (source_ended n st)"
  by (auto simp: graph_ok_def source_ended_def Let_def node_playing_def nth_list_update
           split: option.splits)

lemma graph_ok_step: "graph_ok st \<Longrightarrow> graph_ok (step a st)"
  by (cases a)
     (simp_all add: playAudio_def playAudio_captured_def graph_ok_stopPlayback
        graph_ok_start_playback graph_ok_source_ended)

lemma graph_ok_run: "graph_ok st \<Longrightarrow> graph_ok (run acts st)"
  by (induction acts arbitrary: st) (simp_all add: graph_ok_step)

lemma nodes_stopPlayback:
  "nodes (stopPlayback st) =
     (case sourceNodeRef st of
        None \<Rightarrow> nodes st
      | Some n \<Rightarrow>
          if n < length (nodes st) \<and> started (nodes st ! n)
          then (nodes st)[n := (nodes st ! n)\<lparr>finished := True, connected := False\<rparr>]
          else nodes st)"
  by (simp add: stopPlayback_def node_stop_def node_disconnect_def Let_def
        split: option.splits)

lemma stopped_stays_stopPlayback:
  "m < length (nodes st) \<Longrightarrow> \<not> node_playing (nodes st ! m) \<Longrightarrow>
   \<not> node_playing (nodes (stopPlayback st) ! m)"
  by (simp add: nodes_stopPlayback node_playing_def nth_list_update split: option.splits)

lemma nodes_start_playback:
  "nodes (start_playback item st) =
     nodes (stopPlayback st) @
       (case audioBuffer item of
          None \<Rightarrow> []
        | Some b \<Rightarrow> [\<lparr>node_buffer = b, node_item = item_id item,
                      connected = analyserRef (getAudioContext (stopPlayback st)),
                      started = True, finished = False, onended = True,
                      ended_fired = False\<rparr>])"
  by (simp add: start_playback_def Let_def split: option.splits)

lemma stopped_stays_start_playback:
  "m < length (nodes st) \<Longrightarrow> \<not> node_playing (nodes st ! m) \<Longrightarrow>
   \<not> node_playing (nodes (start_playback item st) ! m)"
  by (simp add: nodes_start_playback nth_append stopPlayback_fields stopped_stays_stopPlayback)

lemma length_nodes_start_playback:
  "length (nodes (start_playback item st)) =
     length (nodes st) + (case audioBuffer item of None \<Rightarrow> 0 | Some b \<Rightarrow> 1)"
  by (simp add: nodes_start_playback stopPlayback_fields split: option.splits)

lemma length_nodes_source_ended [simp]:
  "length (nodes (source_ended n st)) = length (nodes st)"
  by (simp add: source_ended_def Let_def)

lemma stopped_stays_source_ended:
  "m < length (nodes st) \<Longrightarrow> \<not> node_playing (nodes st ! m) \<Longrightarrow>
   \<not> node_playing (nodes (source_ended n st) ! m)"
  by (simp add: source_ended_def Let_def node_playing_def nth_list_update)

lemma stopped_stays_step:
  "m < length (nodes st) \<Longrightarrow> \<not> node_playing (nodes st ! m) \<Longrightarrow>
   m < length (nodes (step a st)) \<and> \<not> node_playing (nodes (step a st) ! m)"
  by (cases a)
     (simp_all add: playAudio_def playAudio_captured_def stopPlayback_fields
        length_nodes_start_playback stopped_stays_stopPlayback stopped_stays_start_playback
        stopped_stays_source_ended)

lemma stopped_stays_run:
  "m < length (nodes st) \<Longrightarrow> \<not> node_playing (nodes st ! m) \<Longrightarrow>
   m < length (nodes (run acts st)) \<and> \<not> node_playing (nodes (run acts st) ! m)"
proof (induction acts arbitrary: st)
  case Nil
  then show ?case by simp
next
  case (Cons a acts)
  from stopped_stays_step [OF Cons.prems, of a]
  show ?case by (simp add: Cons.IH)
qed

lemma sourceNodeRef_start_playback:
  "audioBuffer item = Some b \<Longrightarrow>
   sourceNodeRef (start_playback item st) = Some (length (nodes st))"
  by (simp add: start_playback_def Let_def stopPlayback_fields)

lemma state_start_playback:
  "audioBuffer item = Some b \<Longrightarrow>
   currentAudioId (start_playback item st) = Some (item_id item) \<and>
   isPlaying (start_playback item st)"
  by (simp add: start_playback_def Let_def)

lemma new_node_start_playback:
  assumes "audioBuffer item = Some b"
  shows "nodes (start_playback item st) ! length (nodes st) =
           \<lparr>node_buffer = b, node_item = item_id item,
            connected = analyserRef (getAudioContext (stopPlayback st)),
            started = True, finished = False, onended = True, ended_fired = False\<rparr>"
  using assms
  by (simp add: nodes_start_playback nth_append stopPlayback_fields)

text \<open>
  Claim C8. Starting a record that has a buffer creates a new source node, the last in
  \<open>nodes\<close>, playing, with the \<^verbatim>\<open>ended\<close> handler registered. When that node's buffer
  ends, the node is no longer playing and the handler clears \<^verbatim>\<open>isPlaying\<close> and
  \<^verbatim>\<open>currentAudioId\<close>. From then on no sequence of actions makes that node play again,
  and every later start puts a fresh node, with a new index, in \<^verbatim>\<open>sourceNodeRef\<close>.
\<close>
theorem completion_callback:
  assumes "audioBuffer item = Some b"
  shows "let n = length (nodes st);
             st1 = start_playback item st;
             st2 = source_ended n st1
         in length (nodes st1) = Suc n \<and> sourceNodeRef st1 = Some n \<and>
            onended (nodes st1 ! n) \<and> node_playing (nodes st1 ! n) \<and>
            \<not> node_playing (nodes st2 ! n) \<and> \<not> isPlaying st2 \<and> currentAudioId st2 = None \<and>
            (\<forall>acts. \<not> node_playing (nodes (run acts st2) ! n)) \<and>
            (\<forall>acts item' b'. audioBuffer item' = Some b' \<longrightarrow>
               (let s = run acts st2; s' = start_playback item' s
                in sourceNodeRef s' = Some (length (nodes s)) \<and> n < length (nodes s) \<and>
                   node_playing (nodes s' ! length (nodes s)) \<and>
                   \<not> node_playing (nodes s' ! n)))"
proof -
  let ?n = "length (nodes st)"
  let ?st1 = "start_playback item st"
  let ?st2 = "source_ended ?n ?st1"
  have len: "length (nodes ?st1) = Suc ?n"
    using assms by (simp add: length_nodes_start_playback)
  have node: "onended (nodes ?st1 ! ?n)" "node_playing (nodes ?st1 ! ?n)"
    "started (nodes ?st1 ! ?n)" "\<not> ended_fired (nodes ?st1 ! ?n)"
    by (simp_all add: new_node_start_playback [OF assms] node_playing_def)
  have ended: "\<not> node_playing (nodes ?st2 ! ?n)" "\<not> isPlaying ?st2" "currentAudioId ?st2 = None"
    using len node by (simp_all add: source_ended_def Let_def node_playing_def)
  have in2: "?n < length (nodes ?st2)" using len by simp
  have later: "?n < length (nodes (run acts ?st2)) \<and> \<not> node_playing (nodes (run acts ?st2) ! ?n)"
    for acts
    using stopped_stays_run [OF in2 ended(1)] .
  have fresh: "sourceNodeRef (start_playback item' (run acts ?st2)) =
                 Some (length (nodes (run acts ?st2))) \<and>
               ?n < length (nodes (run acts ?st2)) \<and>
               node_playing (nodes (start_playback item' (run acts ?st2)) !
                               length (nodes (run acts ?st2))) \<and>
               \<not> node_playing (nodes (start_playback item' (run acts ?st2)) ! ?n)"
    if "audioBuffer item' = Some b'" for acts item' b'
  proof -
    let ?s = "run acts ?st2"
    have "node_playing (nodes (start_playback item' ?s) ! length (nodes ?s))"
      by (simp add: new_node_start_playback [OF that] node_playing_def)
    moreover have "\<not> node_playing (nodes (start_playback item' ?s) ! ?n)"
      using later [of acts] by (simp add: stopped_stays_start_playback)
    ultimately show ?thesis
      using later [of acts] sourceNodeRef_start_playback [OF that, of ?s] by simp
  qed
  show ?thesis
    unfolding Let_def
    using len sourceNodeRef_start_playback [OF assms, of st] node(1,2) ended later fresh
    by blast
qed

lemma trace_stopPlayback:
  "graph_ok st \<Longrightarrow>
   trace (stopPlayback st) =
     trace st @ (case sourceNodeRef st of None \<Rightarrow> [] | Some n \<Rightarrow> [NodeStop n, NodeDisconnect n])"
  by (simp add: stopPlayback_ok split: option.splits)

lemma trace_start_playback:
  "graph_ok st \<Longrightarrow> audioBuffer item = Some b \<Longrightarrow>
   trace (start_playback item st) =
     trace (stopPlayback st) @ [NodeConnect (length (nodes st)), NodeStart (length (nodes st))]"
  by (simp add: start_playback_Some)

lemma playing_start_playback:
  assumes "graph_ok st" "audioBuffer item = Some b"
  shows "playing_nodes (start_playback item st) = [length (nodes st)]"
proof -
  have "graph_ok (start_playback item st)"
    using assms(1) by (rule graph_ok_start_playback)
  then show ?thesis
    by (simp add: playing_nodes_ok sourceNodeRef_start_playback [OF assms(2)]
          new_node_start_playback [OF assms(2)] node_playing_def)
qed

lemma start_then_start:
  assumes ok: "graph_ok st"
    and A: "audioBuffer itemA = Some bufA" and B: "audioBuffer itemB = Some bufB"
  shows "happens_before (NodeDisconnect (length (nodes st))) (NodeConnect (Suc (length (nodes st))))
           (trace (start_playback itemB (start_playback itemA st)))"
proof -
  let ?a = "length (nodes st)"
  let ?st1 = "start_playback itemA st"
  have ok1: "graph_ok ?st1" using ok by (rule graph_ok_start_playback)
  have len1: "length (nodes ?st1) = Suc ?a"
    using A by (simp add: length_nodes_start_playback)
  have ref1: "sourceNodeRef ?st1 = Some ?a" using A by (rule sourceNodeRef_start_playback)
  have tr: "trace (start_playback itemB ?st1) =
              trace ?st1 @ [NodeStop ?a, NodeDisconnect ?a, NodeConnect (Suc ?a), NodeStart (Suc ?a)]"
    by (simp add: trace_start_playback [OF ok1 B] trace_stopPlayback [OF ok1] ref1 len1)
  have old: "\<forall>e \<in> set (trace ?st1). e \<noteq> NodeConnect (Suc ?a)"
  proof
    fix e assume "e \<in> set (trace ?st1)"
    then have "event_node e < Suc ?a" using ok1 len1 by (simp add: graph_ok_def)
    then show "e \<noteq> NodeConnect (Suc ?a)" by auto
  qed
  have "takeWhile (\<lambda>e. e \<noteq> NodeConnect (Suc ?a)) (trace (start_playback itemB ?st1)) =
          trace ?st1 @ [NodeStop ?a, NodeDisconnect ?a]"
    unfolding tr using old by (simp add: takeWhile_append2)
  then show ?thesis by (simp add: happens_before_def tr)
qed

text \<open>
  Claim C4. After any sequence of play clicks (with the current or with captured state),
  stops and \<^verbatim>\<open>ended\<close> events, at most one source node is playing. Starting record A and
  then record B leaves exactly one playing node, the new one carrying B's buffer, with B
  the active record; and in the trace, A's node is disconnected before B's is connected.
\<close>
theorem single_playing_session:
  "length (playing_nodes (run acts initial_app)) \<le> 1 \<and>
   (audioBuffer itemA = Some bufA \<and> audioBuffer itemB = Some bufB \<longrightarrow>
      (let st = run acts initial_app;
           a = length (nodes st);
           st2 = start_playback itemB (start_playback itemA st)
       in playing_nodes st2 = [Suc a] \<and>
          node_buffer (nodes st2 ! Suc a) = bufB \<and>
          handle_active itemB st2 \<and>
          happens_before (NodeDisconnect a) (NodeConnect (Suc a)) (trace st2)))"
proof (intro conjI impI)
  let ?st = "run acts initial_app"
  have ok: "graph_ok ?st" using graph_ok_initial by (rule graph_ok_run)
  show "length (playing_nodes ?st) \<le> 1" using ok by (rule at_most_one_playing_ok)
  assume AB: "audioBuffer itemA = Some bufA \<and> audioBuffer itemB = Some bufB"
  let ?a = "length (nodes ?st)"
  let ?st1 = "start_playback itemA ?st"
  let ?st2 = "start_playback itemB ?st1"
  have ok1: "graph_ok ?st1" using ok by (rule graph_ok_start_playback)
  have len1: "length (nodes ?st1) = Suc ?a"
    using AB by (simp add: length_nodes_start_playback)
  have one: "playing_nodes ?st2 = [Suc ?a]"
    using playing_start_playback [OF ok1, of itemB bufB] AB len1 by simp
  have buf: "node_buffer (nodes ?st2 ! Suc ?a) = bufB"
    using new_node_start_playback [of itemB bufB ?st1] AB len1 by simp
  have act: "handle_active itemB ?st2"
    using state_start_playback [of itemB bufB ?st1] AB by (simp add: handle_active_def)
  have ord: "happens_before (NodeDisconnect ?a) (NodeConnect (Suc ?a)) (trace ?st2)"
    using ok AB by (intro start_then_start) auto
  show "let st = ?st; a = length (nodes st);
            st2 = start_playback itemB (start_playback itemA st)
        in playing_nodes st2 = [Suc a] \<and> node_buffer (nodes st2 ! Suc a) = bufB \<and>
           handle_active itemB st2 \<and>
           happens_before (NodeDisconnect a) (NodeConnect (Suc a)) (trace st2)"
    unfolding Let_def using one buf act ord by simp
qed


text \<open>
  Claim C10, as the code has it. For a record without a buffer the export does nothing
  and returns no error. \<^verbatim>\<open>playAudio\<close> creates no source node, but before it returns it
  stops any playback and clears the play state, and unless the record was the active one
  it gets the audio context, creating or resuming it.
\<close>
theorem null_buffer_play_and_export:
  assumes "audioBuffer item = None"
  shows "handleDownload item = Inr None \<and>
         playAudio item st =
           (if handle_active item st then stopPlayback st
            else getAudioContext (stopPlayback st)) \<and>
         length (nodes (playAudio item st)) = length (nodes st) \<and>
         sourceNodeRef (playAudio item st) = None \<and>
         \<not> isPlaying (playAudio item st) \<and> currentAudioId (playAudio item st) = None"
proof -
  have toggle: "playAudio item st =
      (if handle_active item st then stopPlayback st else getAudioContext (stopPlayback st))"
    using assms
    by (simp add: playAudio_def playAudio_captured_def handle_active_def start_playback_None)
  show ?thesis
    unfolding toggle using assms by (simp add: handleDownload_def stopPlayback_fields)
qed

lemmas play_defs = playAudio_def playAudio_captured_def start_playback_def stopPlayback_def
  getAudioContext_def node_stop_def node_disconnect_def initial_app_def Let_def

lemma after_play_a:
  "run [Play record_a] initial_app =
   \<lparr>currentAudioId = Some ''a'', isPlaying = True, audioContextRef = Some Running,
    analyserRef = True, gainNodeRef = True, sourceNodeRef = Some 0,
    nodes = [\<lparr>node_buffer = tone, node_item = ''a'', connected = True, started = True,
              finished = False,
              onended = True, ended_fired = False\<rparr>],
    trace = [NodeConnect 0, NodeStart 0]\<rparr>"
  by (simp add: play_defs record_a_def)

lemma buffers_of_records:
  "audioBuffer record_a = Some tone" "audioBuffer record_b = Some silence"
  "audioBuffer record_null = None"
  by (simp_all add: record_a_def record_b_def record_null_def)

text \<open>Records \<open>a\<close> and \<open>b\<close> started one after the other while \<open>a\<close> is already playing.\<close>
theorem single_playing_session_witness:
  "audioBuffer record_a = Some tone \<and> audioBuffer record_b = Some silence \<and>
   length (playing_nodes (run [Play record_a] initial_app)) \<le> 1 \<and>
   playing_nodes (start_playback record_b (start_playback record_a
                    (run [Play record_a] initial_app))) = [2] \<and>
   node_buffer (nodes (start_playback record_b (start_playback record_a
                         (run [Play record_a] initial_app))) ! 2) = silence \<and>
   happens_before (NodeDisconnect 1) (NodeConnect 2)
     (trace (start_playback record_b (start_playback record_a
               (run [Play record_a] initial_app))))"
proof -
  have len: "length (nodes (run [Play record_a] initial_app)) = 1"
    unfolding after_play_a by simp
  have two: "Suc 1 = 2" by simp
  show ?thesis
    using single_playing_session [of "[Play record_a]" record_a tone record_b silence]
    unfolding Let_def len two
    by (simp only: buffers_of_records simp_thms)
qed


text \<open>Record \<open>a\<close> started from the initial state, ended, and played again.\<close>
theorem completion_callback_witness:
  "audioBuffer record_a = Some tone \<and>
   length (nodes (start_playback record_a initial_app)) = 1 \<and>
   node_playing (nodes (start_playback record_a initial_app) ! 0) \<and>
   \<not> node_playing (nodes (source_ended 0 (start_playback record_a initial_app)) ! 0) \<and>
   \<not> isPlaying (source_ended 0 (start_playback record_a initial_app)) \<and>
   currentAudioId (source_ended 0 (start_playback record_a initial_app)) = None \<and>
   \<not> node_playing (nodes (run [Play record_a]
                            (source_ended 0 (start_playback record_a initial_app))) ! 0)"
proof -
  have n: "length (nodes initial_app) = 0" by (simp add: initial_app_def)
  note c = completion_callback [OF buffers_of_records(1), of initial_app, unfolded Let_def n]
  from c have "\<forall>acts. \<not> node_playing
      (nodes (run acts (source_ended 0 (start_playback record_a initial_app))) ! 0)"
    by blast
  then have "\<not> node_playing
      (nodes (run [Play record_a] (source_ended 0 (start_playback record_a initial_app))) ! 0)"
    by (rule spec)
  with c buffers_of_records(1) show ?thesis by simp
qed

text \<open>The record without buffer, clicked while \<open>a\<close> is playing.\<close>
theorem null_buffer_play_and_export_witness:
  "audioBuffer record_null = None \<and> handleDownload record_null = Inr None \<and>
   length (nodes (playAudio record_null (run [Play record_a] initial_app))) = 1 \<and>
   sourceNodeRef (playAudio record_null (run [Play record_a] initial_app)) = None \<and>
   \<not> isPlaying (playAudio record_null (run [Play record_a] initial_app))"
proof -
  have len: "length (nodes (run [Play record_a] initial_app)) = 1"
    unfolding after_play_a by simp
  note n = null_buffer_play_and_export
             [OF buffers_of_records(3), of "run [Play record_a] initial_app", unfolded len]
  show ?thesis
    using n buffers_of_records(3) by blast
qed

text \<open>
  Claim C10 as stated fails: playing a record without buffer is not a no-op. While
  \<open>a\<close> is playing it stops \<open>a\<close>; in the initial state it creates the audio context.
\<close>
theorem null_buffer_play_counterexample:
  "isPlaying (run [Play record_a] initial_app) \<and>
   playing_nodes (run [Play record_a] initial_app) = [0] \<and>
   \<not> isPlaying (playAudio record_null (run [Play record_a] initial_app)) \<and>
   playing_nodes (playAudio record_null (run [Play record_a] initial_app)) = [] \<and>
   audioContextRef initial_app = None \<and>
   audioContextRef (playAudio record_null initial_app) = Some Running"
  unfolding after_play_a
  by (simp add: play_defs record_null_def playing_nodes_def node_playing_def)











text \<open>
  How the state variables fall behind: record \<open>b\<close> is started while \<open>a\<close> plays, and
  then the \<^verbatim>\<open>ended\<close> event of the stopped node of \<open>a\<close> is dispatched. The node of
  \<open>b\<close> is playing, yet both state variables are cleared.
\<close>
lemma stale_ended_clears_flags:
  "playing_nodes (run [Play record_a, Play record_b, Ended 0] initial_app) = [1] \<and>
   node_item (nodes (run [Play record_a, Play record_b, Ended 0] initial_app) ! 1) = ''b'' \<and>
   \<not> isPlaying (run [Play record_a, Play record_b, Ended 0] initial_app) \<and>
   currentAudioId (run [Play record_a, Play record_b, Ended 0] initial_app) = None \<and>
   \<not> flags_current (run [Play record_a, Play record_b, Ended 0] initial_app)"
proof -
  have "run [Play record_a, Play record_b, Ended 0] initial_app =
        source_ended 0 (playAudio record_b (run [Play record_a] initial_app))"
    by simp
  then show ?thesis
    unfolding after_play_a
    by (simp add: play_defs source_ended_def record_b_def playing_nodes_def node_playing_def
          flags_current_def)
qed


section \<open>Properties of the visualizer\<close>

lemma ticks_idle_running:
  "pending vz \<Longrightarrow> pending (ticks False (replicate k Running) vz)"
  by (induction k arbitrary: vz) (simp_all add: tick_def draw_def Let_def)

text \<open>
  Claim C9 at a failing input. The component is mounted with a canvas and an analyser,
  playback is inactive and the audio context is running, as it is after any playback. The
  comments in the branch of \<^verbatim>\<open>draw\<close> for inactive playback say that updating stops, but
  the branch requests the next frame: after three frames a frame is still pending and the
  spectrum has been drawn each time. By \<open>ticks_idle_running\<close> the same holds after any
  number of frames.
\<close>
theorem idle_loop_failing_input:
  "pending (ticks False [Running, Running, Running]
              (effect_run True True False Running blank)) \<and>
   canvas (ticks False [Running, Running, Running]
              (effect_run True True False Running blank)) = Spectrum"
  by (simp add: tick_def draw_def effect_run_def blank_def Let_def)

text \<open>The first half of that statement, taken from it: the frame that is still pending.\<close>
theorem idle_loop_failing_input_witness:
  "pending (ticks False [Running, Running, Running]
              (effect_run True True False Running blank))"
  using idle_loop_failing_input by (rule conjunct1)

end
